theory Spec2Isabelle
  imports Main
begin

section \<open>The document tree\<close>

text \<open>
  The extractor of \<^verbatim>\<open>article_fetching/utils/get_text/my_custom.py\<close> works on the
  element tree that \<^verbatim>\<open>xml.etree.ElementTree.fromstring\<close> builds. An element has a tag, an
  optional text (the character data after its start tag), an optional tail (the character
  data after its end tag, up to the next sibling) and its children in document order.
  Attributes are never read by the extractor and are left out. A Python \<^verbatim>\<open>None\<close> is
  \<^const>\<open>None\<close>. The selector of the text is \<open>el_text\<close>, since \<open>text\<close> is a keyword.
\<close>

datatype element =
  Element (tag: string) (el_text: "string option") (tail: "string option")
    (children: "element list")

section \<open>Strings\<close>

text \<open>
  \<^verbatim>\<open>str.split()\<close> and \<^verbatim>\<open>str.strip()\<close> without arguments work on Python's white space.
  For the code points below 256 these are 9 to 13, 28 to 32, 133 and 160.
\<close>

definition is_space :: "char \<Rightarrow> bool" where
  "is_space c = (of_char c \<in> {9, 10, 11, 12, 13, 28, 29, 30, 31, 32, 133, 160 :: nat})"

text \<open>\<^verbatim>\<open>s.split()\<close>: the maximal runs of characters that are not white space.\<close>

fun split_from :: "string \<Rightarrow> string \<Rightarrow> string list" where
  "split_from w [] = (if w = [] then [] else [w])"
| "split_from w (c # cs) =
     (if is_space c then (if w = [] then [] else [w]) @ split_from [] cs
      else split_from (w @ [c]) cs)"

definition split_ws :: "string \<Rightarrow> string list" where
  "split_ws s = split_from [] s"

text \<open>\<^verbatim>\<open>" ".join(parts)\<close>.\<close>

fun join_sp :: "string list \<Rightarrow> string" where
  "join_sp [] = []"
| "join_sp [x] = x"
| "join_sp (x # y # ys) = x @ '' '' @ join_sp (y # ys)"

text \<open>\<^verbatim>\<open>s.strip()\<close>.\<close>

definition strip :: "string \<Rightarrow> string" where
  "strip s = rev (dropWhile is_space (rev (dropWhile is_space s)))"

text \<open>The decimal numeral of the f-string \<^verbatim>\<open>f"{base} {i}"\<close>.\<close>

fun str_of_nat :: "nat \<Rightarrow> string" where
  "str_of_nat n =
     (if n < 10 then [''0123456789'' ! n]
      else str_of_nat (n div 10) @ [''0123456789'' ! (n mod 10)])"

declare str_of_nat.simps [simp del]

text \<open>\<^verbatim>\<open>s.endswith(name)\<close>.\<close>

definition endswith :: "string \<Rightarrow> string \<Rightarrow> bool" where
  "endswith s name = (length name \<le> length s \<and> drop (length s - length name) s = name)"

section \<open>Text utilities\<close>

text \<open>
  The truth value of an optional string: \<^verbatim>\<open>if n.text:\<close> holds for a string that is
  neither \<^verbatim>\<open>None\<close> nor empty. \<open>part\<close> is what such a guarded \<^verbatim>\<open>parts.append\<close> adds.
\<close>

definition part :: "string option \<Rightarrow> string list" where
  "part s = (case s of None \<Rightarrow> [] | Some t \<Rightarrow> if t = [] then [] else [t])"

text \<open>
  The inner function \<^verbatim>\<open>walk\<close> of \<^verbatim>\<open>_txt\<close>; the list \<^verbatim>\<open>parts\<close> it appends to is its
  result here.
\<close>

fun walk :: "element \<Rightarrow> string list" where
  "walk (Element t tx ta cs) = part tx @ concat (map (\<lambda>c. walk c @ part (tail c)) cs)"

definition txt_el :: "element option \<Rightarrow> string" where
  "txt_el el = (case el of None \<Rightarrow> [] | Some e \<Rightarrow> join_sp (split_ws (join_sp (walk e))))"

definition is_tag :: "element \<Rightarrow> string \<Rightarrow> bool" where
  "is_tag el name = endswith (tag el) name"

section \<open>Element paths\<close>

text \<open>
  \<^verbatim>\<open>el.findall("./a/b")\<close> takes, step by step, the children with exactly that tag of all
  elements selected so far, in document order; \<^verbatim>\<open>el.find\<close> is the first of them or
  \<^verbatim>\<open>None\<close>.
\<close>

definition select_children :: "string \<Rightarrow> element list \<Rightarrow> element list" where
  "select_children t es = concat (map (\<lambda>e. filter (\<lambda>c. tag c = t) (children e)) es)"

definition findall :: "string list \<Rightarrow> element \<Rightarrow> element list" where
  "findall path e = foldl (\<lambda>es t. select_children t es) [e] path"

definition find_path :: "string list \<Rightarrow> element \<Rightarrow> element option" where
  "find_path path e = (case findall path e of [] \<Rightarrow> None | x # _ \<Rightarrow> Some x)"

text \<open>
  \<^verbatim>\<open>root.find(".//article")\<close>: the first element with exactly that tag among the proper
  descendants of the root, in document order.
\<close>

fun iter :: "element \<Rightarrow> element list" where
  "iter (Element t tx ta cs) = Element t tx ta cs # concat (map iter cs)"

definition descendants :: "element \<Rightarrow> element list" where
  "descendants e = concat (map iter (children e))"

definition find_descendant :: "string \<Rightarrow> element \<Rightarrow> element option" where
  "find_descendant t e = List.find (\<lambda>x. tag x = t) (descendants e)"

section \<open>The section map\<close>

text \<open>
  The result is a Python dictionary from keys to lists of paragraphs. Its insertion order
  is part of the result, so it is an association list with one pair for each key.
\<close>

type_synonym store = "(string \<times> string list) list"

text \<open>\<^verbatim>\<open>store.setdefault(key, []).extend(paras)\<close>.\<close>

fun setdefault_extend :: "store \<Rightarrow> string \<Rightarrow> string list \<Rightarrow> store" where
  "setdefault_extend [] k ps = [(k, ps)]"
| "setdefault_extend ((k', v) # rest) k ps =
     (if k' = k then (k', v @ ps) # rest else (k', v) # setdefault_extend rest k ps)"

text \<open>\<^verbatim>\<open>out[key] = value\<close>.\<close>

fun assign :: "store \<Rightarrow> string \<Rightarrow> string list \<Rightarrow> store" where
  "assign [] k v = [(k, v)]"
| "assign ((k', v') # rest) k v =
     (if k' = k then (k', v) # rest else (k', v') # assign rest k v)"

section \<open>JATS parsing\<close>

definition first_article :: "element \<Rightarrow> element option" where
  "first_article root =
     (if is_tag root ''article'' then Some root else find_descendant ''article'' root)"

definition block_tags :: "string list" where
  "block_tags = [''p'', ''boxed-text'', ''disp-quote'', ''def-list'', ''list'',
     ''supplementary-material'', ''table-wrap-foot'', ''statement'', ''caption'']"

text \<open>The stripped flattening of a node, appended when it is not empty.\<close>

definition para :: "element \<Rightarrow> string list" where
  "para node = (let t = strip (txt_el (Some node)) in if t = [] then [] else [t])"

definition collect_level_paragraphs :: "element \<Rightarrow> string list" where
  "collect_level_paragraphs container =
     concat (map (\<lambda>node.
       if is_tag node ''title'' \<or> is_tag node ''label'' \<or> is_tag node ''sec'' then []
       else if list_ex (is_tag node) block_tags then para node
       else para node) (children container))"

text \<open>The loop over the children of the body that ends at the first section.\<close>

fun preface_scan :: "element list \<Rightarrow> string list" where
  "preface_scan [] = []"
| "preface_scan (node # nodes) =
     (if is_tag node ''sec'' then []
      else (if \<not> is_tag node ''title'' then para node else []) @ preface_scan nodes)"

text \<open>\<^verbatim>\<open>x or default\<close> on strings.\<close>

definition or_else :: "string \<Rightarrow> string \<Rightarrow> string" where
  "or_else s d = (if s = [] then d else s)"

definition extend_if :: "store \<Rightarrow> string \<Rightarrow> string list \<Rightarrow> store" where
  "extend_if store k paras = (if paras = [] then store else setdefault_extend store k paras)"

fun walk_sec :: "element \<Rightarrow> store \<Rightarrow> store" where
  "walk_sec (Element t tx ta cs) store =
     (let sec = Element t tx ta cs;
          title = or_else (txt_el (find_path [''title''] sec)) ''Untitled Section'';
          paras = collect_level_paragraphs sec
      in foldl (\<lambda>st child. if is_tag child ''sec'' then walk_sec child st else st)
           (extend_if store title paras) cs)"

definition parse_body_into_map :: "element \<Rightarrow> store \<Rightarrow> store" where
  "parse_body_into_map article store =
     (case find_path [''body''] article of
        None \<Rightarrow> store
      | Some body \<Rightarrow>
          (let preface = preface_scan (children body);
               store1 = extend_if store ''Body (untitled)'' preface
           in foldl (\<lambda>st top. walk_sec top st) store1 (findall [''sec''] body)))"

text \<open>The key of the \<open>i\<close>-th of \<open>n\<close> abstract nodes.\<close>

definition abstract_key :: "nat \<Rightarrow> nat \<Rightarrow> element \<Rightarrow> string" where
  "abstract_key n i abs_el =
     (let title_text = txt_el (find_path [''title''] abs_el)
      in if n = 1 \<and> title_text = [] then ''Abstract''
         else or_else title_text (''Abstract'' @ '' '' @ str_of_nat i))"

text \<open>One round of the loop over the abstract nodes.\<close>

definition abstract_step :: "nat \<Rightarrow> store \<Rightarrow> nat \<times> element \<Rightarrow> store" where
  "abstract_step n store ie =
     (let i = fst ie; abs_el = snd ie;
          key = abstract_key n i abs_el;
          store1 = extend_if store key (collect_level_paragraphs abs_el)
      in foldl (\<lambda>st s.
            extend_if st (or_else (txt_el (find_path [''title''] s)) (key @ '' subsection''))
              (collect_level_paragraphs s))
           store1 (filter (\<lambda>c. is_tag c ''sec'') (children abs_el)))"

definition abs_nodes :: "element \<Rightarrow> element list" where
  "abs_nodes meta = findall [''abstract''] meta @ findall [''trans-abstract''] meta"

definition parse_abstract_into_map :: "element \<Rightarrow> store \<Rightarrow> store" where
  "parse_abstract_into_map article store =
     (case find_path [''front'', ''article-meta''] article of
        None \<Rightarrow> store
      | Some meta \<Rightarrow>
          (let nodes = abs_nodes meta
           in foldl (abstract_step (length nodes)) store
                (zip [1 ..< Suc (length nodes)] nodes)))"

section \<open>The public entry point\<close>

datatype error = ParseError

text \<open>Everything after \<^verbatim>\<open>ET.fromstring\<close> has returned the root.\<close>

definition section_map_of_root :: "element \<Rightarrow> store" where
  "section_map_of_root root =
     (case first_article root of
        None \<Rightarrow> []
      | Some article \<Rightarrow>
          (let title_el =
                 (case find_path [''front'', ''article-meta'', ''title-group'', ''article-title'']
                         article of
                    Some e \<Rightarrow> Some e
                  | None \<Rightarrow>
                      find_path [''front'', ''article-meta'', ''title-group'',
                                 ''trans-title-group'', ''trans-title''] article);
               title = txt_el title_el;
               out1 = (if title = [] then [] else assign [] ''Title'' [title]);
               out2 = parse_abstract_into_map article out1
           in parse_body_into_map article out2))"

text \<open>
  \<^verbatim>\<open>ET.fromstring\<close> belongs to the Python library, not to the repository. The extractor
  takes it as a parameter: \<^const>\<open>None\<close> stands for its \<^verbatim>\<open>ParseError\<close>, which the extractor
  does not catch.
\<close>

definition jats_to_section_paragraph_map ::
  "(string \<Rightarrow> element option) \<Rightarrow> string \<Rightarrow> error + store" where
  "jats_to_section_paragraph_map fromstring raw_xml =
     (case fromstring raw_xml of
        None \<Rightarrow> Inl ParseError
      | Some root \<Rightarrow> Inr (section_map_of_root root))"

section \<open>A reader for documents without attributes and references\<close>

text \<open>
  The claims that name a document by its text need the tree of that text. \<open>fromstring\<close>
  reads the documents that are made of start tags, end tags and empty-element tags without
  attributes and of character data without references, and builds the tree the way
  \<^verbatim>\<open>ElementTree\<close>'s tree builder does: character data after a start tag becomes the text
  of the open element, character data after an end tag becomes the tail of the element just
  closed. A text with a tag that is never closed, with a wrong end tag, with a second root
  or with no root is refused, as by the library. A text that uses anything else of XML
  (attributes, references, comments, declarations) is outside this reader and is refused by
  it too; the theorems use it on texts inside the fragment only, and every theorem that
  speaks of all documents is stated for an arbitrary reader.
\<close>

datatype token = Open string | Close string | Empty string | Chars string

definition name_char :: "char \<Rightarrow> bool" where
  "name_char c = (let n = (of_char c :: nat) in
     (65 \<le> n \<and> n \<le> 90) \<or> (97 \<le> n \<and> n \<le> 122) \<or> (48 \<le> n \<and> n \<le> 57)
     \<or> c \<in> set ''-_.:'')"

definition is_name :: "string \<Rightarrow> bool" where
  "is_name n = (n \<noteq> [] \<and> list_all name_char n \<and> hd n \<notin> set ''-.0123456789'')"

definition tag_token :: "string \<Rightarrow> token option" where
  "tag_token buf =
     (if buf = [] then None
      else if hd buf = CHR ''/'' then (if is_name (tl buf) then Some (Close (tl buf)) else None)
      else if last buf = CHR ''/'' then
        (if is_name (butlast buf) then Some (Empty (butlast buf)) else None)
      else if is_name buf then Some (Open buf) else None)"

definition chars_token :: "string \<Rightarrow> token list" where
  "chars_token buf = (if buf = [] then [] else [Chars buf])"

fun lex_text :: "string \<Rightarrow> string \<Rightarrow> token list option"
  and lex_tag :: "string \<Rightarrow> string \<Rightarrow> token list option" where
  "lex_text buf [] = Some (chars_token buf)"
| "lex_text buf (c # cs) =
     (if c = CHR ''<'' then map_option (\<lambda>ts. chars_token buf @ ts) (lex_tag [] cs)
      else if c = CHR ''&'' then None
      else lex_text (buf @ [c]) cs)"
| "lex_tag buf [] = None"
| "lex_tag buf (c # cs) =
     (if c = CHR ''>'' then
        (case tag_token buf of
           None \<Rightarrow> None
         | Some tk \<Rightarrow> map_option (\<lambda>ts. tk # ts) (lex_text [] cs))
      else if c = CHR ''<'' then None
      else lex_tag (buf @ [c]) cs)"

definition xml_space :: "char \<Rightarrow> bool" where
  "xml_space c = (c \<in> set [CHR '' '', CHR 0x09, CHR 0x0A, CHR 0x0D])"

text \<open>
  The open elements are a stack, innermost first. \<open>after\<close> says that the last tag read was
  an end tag, so that character data belongs to the tail of the last child.
\<close>

definition add_data :: "string \<Rightarrow> bool \<Rightarrow> element \<Rightarrow> element" where
  "add_data s after f =
     (if after \<and> children f \<noteq> [] then
        (let c = last (children f)
         in Element (tag f) (el_text f) (tail f)
              (butlast (children f) @ [Element (tag c) (el_text c) (Some s) (children c)]))
      else Element (tag f) (Some s) (tail f) (children f))"

definition append_child :: "element \<Rightarrow> element \<Rightarrow> element" where
  "append_child p c = Element (tag p) (el_text p) (tail p) (children p @ [c])"

fun close_element ::
  "element \<Rightarrow> element list \<Rightarrow> element option \<Rightarrow> (element list \<times> element option) option" where
  "close_element e [] root = (if root = None then Some ([], Some e) else None)"
| "close_element e (p # ps) root = Some (append_child p e # ps, root)"

fun build :: "token list \<Rightarrow> element list \<Rightarrow> element option \<Rightarrow> bool \<Rightarrow> element option" where
  "build [] stack root after = (if stack = [] then root else None)"
| "build (Open t # ts) stack root after =
     (if stack = [] \<and> root \<noteq> None then None
      else build ts (Element t None None [] # stack) root False)"
| "build (Chars s # ts) stack root after =
     (case stack of
        [] \<Rightarrow> if list_all xml_space s then build ts [] root after else None
      | f # fs \<Rightarrow> build ts (add_data s after f # fs) root after)"
| "build (Close t # ts) stack root after =
     (case stack of
        [] \<Rightarrow> None
      | f # fs \<Rightarrow>
          if tag f \<noteq> t then None
          else (case close_element f fs root of
                  None \<Rightarrow> None
                | Some (stack', root') \<Rightarrow> build ts stack' root' True))"
| "build (Empty t # ts) stack root after =
     (case close_element (Element t None None []) stack root of
        None \<Rightarrow> None
      | Some (stack', root') \<Rightarrow> build ts stack' root' True)"

definition fromstring :: "string \<Rightarrow> element option" where
  "fromstring raw = (case lex_text [] raw of None \<Rightarrow> None | Some ts \<Rightarrow> build ts [] None False)"

section \<open>Predicates of the claims\<close>


text \<open>An optional string that is absent or has white space only.\<close>

definition blank_opt :: "string option \<Rightarrow> bool" where
  "blank_opt s = (case s of None \<Rightarrow> True | Some t \<Rightarrow> list_all is_space t)"

text \<open>
  The children that the paragraph collector passes over: those whose tag ends with
  \<open>title\<close>, \<open>label\<close> or \<open>sec\<close>.
\<close>

definition skipped :: "element \<Rightarrow> bool" where
  "skipped node = (is_tag node ''title'' \<or> is_tag node ''label'' \<or> is_tag node ''sec'')"

text \<open>An element without its section children.\<close>

definition without_sections :: "element \<Rightarrow> element" where
  "without_sections s =
     Element (tag s) (el_text s) (tail s) (filter (\<lambda>c. \<not> is_tag c ''sec'') (children s))"

text \<open>
  An abstract in which every section child has lost its own section children: the
  sections two levels below the abstract are gone, everything else is as before.
\<close>

definition strip_inner :: "element \<Rightarrow> element" where
  "strip_inner abs_el =
     Element (tag abs_el) (el_text abs_el) (tail abs_el)
       (map (\<lambda>s. if is_tag s ''sec'' then without_sections s else s) (children abs_el))"

text \<open>The list under a key, empty when the key is absent.\<close>

definition entry :: "store \<Rightarrow> string \<Rightarrow> string list" where
  "entry m k = (case map_of m k of None \<Rightarrow> [] | Some v \<Rightarrow> v)"

text \<open>The key that \<open>walk_sec\<close> derives for a section.\<close>

definition sec_key :: "element \<Rightarrow> string" where
  "sec_key sec = or_else (txt_el (find_path [''title''] sec)) ''Untitled Section''"

text \<open>
  The sections that \<open>walk_sec\<close> visits from a section, in the order of the visits, each
  with its key and its own paragraphs; \<open>nested_entries\<close> are those of the sections nested
  in it.
\<close>

fun sec_entries :: "element \<Rightarrow> (string \<times> string list) list" where
  "sec_entries (Element t tx ta cs) =
     (sec_key (Element t tx ta cs), collect_level_paragraphs (Element t tx ta cs))
       # concat (map sec_entries (filter (\<lambda>c. is_tag c ''sec'') cs))"

definition nested_entries :: "element \<Rightarrow> (string \<times> string list) list" where
  "nested_entries sec = concat (map sec_entries (filter (\<lambda>c. is_tag c ''sec'') (children sec)))"

text \<open>Storing a list of such pairs, one after the other, as \<open>walk_sec\<close> does.\<close>

definition add_entries :: "store \<Rightarrow> (string \<times> string list) list \<Rightarrow> store" where
  "add_entries m es = foldl (\<lambda>st e. extend_if st (fst e) (snd e)) m es"

text \<open>The paragraphs that a list of such pairs holds for one key.\<close>

definition paras_for :: "string \<Rightarrow> (string \<times> string list) list \<Rightarrow> string list" where
  "paras_for k es = concat (map snd (filter (\<lambda>e. fst e = k) es))"



text \<open>
  What one round of the abstract walker stores, in order: the abstract's own paragraphs
  under its key, then the paragraphs of each section child under that child's key.
\<close>

definition abstract_entries :: "nat \<Rightarrow> nat \<times> element \<Rightarrow> (string \<times> string list) list" where
  "abstract_entries n ie =
     (abstract_key n (fst ie) (snd ie), collect_level_paragraphs (snd ie))
       # map (\<lambda>s. (or_else (txt_el (find_path [''title''] s))
                       (abstract_key n (fst ie) (snd ie) @ '' subsection''),
                    collect_level_paragraphs s))
           (filter (\<lambda>c. is_tag c ''sec'') (children (snd ie)))"

section \<open>The end-to-end example\<close>

text \<open>
  C1. For the document of the specification's end-to-end example the extractor returns the
  map with the keys Title, Abstract, Intro and Sub, in this order, each with its one
  paragraph.
\<close>

theorem end_to_end_example:
  "jats_to_section_paragraph_map fromstring
     ''<article><front><article-meta><title-group><article-title>Foo</article-title></title-group><abstract><p>Bar.</p></abstract></article-meta></front><body><sec><title>Intro</title><p>Hello world.</p><sec><title>Sub</title><p>Nested text.</p></sec></sec></body></article>''
   = Inr [(''Title'', [''Foo'']), (''Abstract'', [''Bar.'']),
          (''Intro'', [''Hello world.'']), (''Sub'', [''Nested text.''])]"
  by code_simp


section \<open>Facts about lists\<close>



section \<open>The key Title\<close>

text \<open>
  C2. The claim is that the list under the key Title, when the key is present, has exactly
  one entry, the flattened article title, even when a section of the body derives the key
  Title. The docstring of the extractor says the same of the key. The body walker stores
  the paragraphs of a section titled Title with \<^verbatim>\<open>setdefault\<close> and \<^verbatim>\<open>extend\<close> under the
  same key: for the document below the list under Title has two entries, the article title
  and the paragraph of the section.
\<close>

theorem title_key_collision:
  "jats_to_section_paragraph_map fromstring
     ''<article><front><article-meta><title-group><article-title>Foo</article-title></title-group></article-meta></front><body><sec><title>Title</title><p>X</p></sec></body></article>''
   = Inr [(''Title'', [''Foo'', ''X''])]"
  by code_simp

section \<open>Parse failures\<close>



section \<open>The article element\<close>




section \<open>Flattening\<close>

lemma split_from_blank:
  "list_all is_space b \<Longrightarrow> split_from w b = (if w = [] then [] else [w])"
  by (induction b arbitrary: w) auto

lemma split_from_append_blank:
  "list_all is_space b \<Longrightarrow> split_from w (s @ b) = split_from w s"
  by (induction s arbitrary: w) (auto simp: split_from_blank)

lemma split_ws_blank_append:
  "list_all is_space b \<Longrightarrow> split_ws (b @ s) = split_ws s"
  unfolding split_ws_def by (induction b) auto

lemma split_ws_append_blank:
  "list_all is_space b \<Longrightarrow> split_ws (s @ b) = split_ws s"
  unfolding split_ws_def by (rule split_from_append_blank)

lemma is_space_space: "is_space CHR '' ''"
  by (simp add: is_space_def)

lemma join_sp_Cons: "join_sp (x # xs) = (if xs = [] then x else x @ '' '' @ join_sp xs)"
  by (cases xs) auto

lemma join_sp_snoc: "join_sp (xs @ [y]) = (if xs = [] then y else join_sp xs @ '' '' @ y)"
  by (induction xs rule: join_sp.induct) auto

lemma split_join_blank_Cons:
  assumes "list_all is_space b"
  shows "split_ws (join_sp (b # xs)) = split_ws (join_sp xs)"
proof (cases xs)
  case Nil
  then show ?thesis using assms split_ws_append_blank [of b "[]"] by simp
next
  case (Cons y ys)
  have "list_all is_space (b @ '' '')" using assms is_space_space by simp
  then have "split_ws ((b @ '' '') @ join_sp xs) = split_ws (join_sp xs)"
    by (rule split_ws_blank_append)
  then show ?thesis using Cons by (simp add: join_sp_Cons)
qed

lemma split_join_blank_snoc:
  assumes "list_all is_space b"
  shows "split_ws (join_sp (xs @ [b])) = split_ws (join_sp xs)"
proof (cases "xs = []")
  case True
  then show ?thesis using assms split_ws_append_blank [of b "[]"] by simp
next
  case False
  have "list_all is_space ('' '' @ b)" using assms is_space_space by simp
  then have "split_ws (join_sp xs @ ('' '' @ b)) = split_ws (join_sp xs)"
    by (rule split_ws_append_blank)
  then show ?thesis using False by (simp add: join_sp_snoc)
qed

lemma split_join_part_Cons:
  "blank_opt s \<Longrightarrow> split_ws (join_sp (part s @ xs)) = split_ws (join_sp xs)"
  by (auto simp: blank_opt_def part_def split_join_blank_Cons split: option.splits)

lemma split_join_part_snoc:
  "blank_opt s \<Longrightarrow> split_ws (join_sp (xs @ part s)) = split_ws (join_sp xs)"
  by (auto simp: blank_opt_def part_def split_join_blank_snoc split: option.splits)

lemma walk_children: "walk e = part (el_text e) @ concat (map (\<lambda>c. walk c @ part (tail c)) (children e))"
  by (cases e) simp

text \<open>
  C8 as stated fails. The claim asks that the text and the tail of the wrapping node \<open>w\<close>
  be absent or white space. Flattening never reads the tail of the node it is given, and
  it does read the tail of every child: the text that follows \<open>n\<close> inside \<open>w\<close> is the tail
  of \<open>n\<close>. With a wrapper whose text and tail are absent and a child with the tail \<open>b\<close>
  the two flattenings differ.
\<close>

theorem wrapping_counterexample:
  "children (Element ''w'' None None [Element ''n'' (Some ''a'') (Some ''b'') []])
     = [Element ''n'' (Some ''a'') (Some ''b'') []] \<and>
   blank_opt (el_text (Element ''w'' None None [Element ''n'' (Some ''a'') (Some ''b'') []])) \<and>
   blank_opt (tail (Element ''w'' None None [Element ''n'' (Some ''a'') (Some ''b'') []])) \<and>
   txt_el (Some (Element ''w'' None None [Element ''n'' (Some ''a'') (Some ''b'') []])) = ''a b'' \<and>
   txt_el (Some (Element ''n'' (Some ''a'') (Some ''b'') [])) = ''a''"
  by code_simp

text \<open>
  C8, amended. For every node \<open>n\<close> and every node \<open>w\<close> whose only child is \<open>n\<close>, when the
  text of \<open>w\<close> and the tail of \<open>n\<close> are absent or white space only, flattening \<open>w\<close> gives the
  same string as flattening \<open>n\<close>; and flattening an absent node gives the empty string.
\<close>

theorem flatten_wrapped:
  "(children w = [n] \<and> blank_opt (el_text w) \<and> blank_opt (tail n) \<longrightarrow>
      txt_el (Some w) = txt_el (Some n)) \<and>
   txt_el None = []"
proof (intro conjI impI)
  assume h: "children w = [n] \<and> blank_opt (el_text w) \<and> blank_opt (tail n)"
  have "walk w = part (el_text w) @ (walk n @ part (tail n))"
    using h by (simp add: walk_children [of w])
  then have "split_ws (join_sp (walk w)) = split_ws (join_sp (walk n @ part (tail n)))"
    using h by (simp add: split_join_part_Cons)
  also have "\<dots> = split_ws (join_sp (walk n))"
    using h by (simp add: split_join_part_snoc)
  finally show "txt_el (Some w) = txt_el (Some n)" by (simp add: txt_el_def)
next
  show "txt_el None = []" by (simp add: txt_el_def)
qed

theorem flatten_wrapped_witness:
  "txt_el (Some (Element ''w'' (Some [CHR 0x0A, CHR '' '']) None
       [Element ''n'' (Some ''a  b'') (Some '' '') [Element ''i'' (Some ''c'') (Some ''d'') []]]))
   = txt_el (Some (Element ''n'' (Some ''a  b'') (Some '' '')
       [Element ''i'' (Some ''c'') (Some ''d'') []])) \<and>
   txt_el (Some (Element ''n'' (Some ''a  b'') (Some '' '')
       [Element ''i'' (Some ''c'') (Some ''d'') []])) = ''a b c d''"
proof -
  let ?n = "Element ''n'' (Some ''a  b'') (Some '' '') [Element ''i'' (Some ''c'') (Some ''d'') []]"
  let ?w = "Element ''w'' (Some [CHR 0x0A, CHR '' '']) None [?n]"
  have h: "children ?w = [?n] \<and> blank_opt (el_text ?w) \<and> blank_opt (tail ?n)"
    by code_simp
  have v: "txt_el (Some ?n) = ''a b c d''" by code_simp
  show ?thesis using flatten_wrapped [of ?w ?n] h v by blast
qed

section \<open>Facts about paths and the paragraph collector\<close>

lemma findall_one: "findall [t] e = filter (\<lambda>c. tag c = t) (children e)"
  by (simp add: findall_def select_children_def)

lemma find_path_one:
  "find_path [t] e = (case filter (\<lambda>c. tag c = t) (children e) of [] \<Rightarrow> None | x # _ \<Rightarrow> Some x)"
  by (simp add: find_path_def findall_one)

lemma concat_map_skip:
  "concat (map (\<lambda>n. if P n then [] else f n) xs) = concat (map f (filter (\<lambda>n. \<not> P n) xs))"
  by (induction xs) auto

lemma collect_filter:
  "collect_level_paragraphs c = concat (map para (filter (\<lambda>n. \<not> skipped n) (children c)))"
proof -
  have "collect_level_paragraphs c
      = concat (map (\<lambda>n. if skipped n then [] else para n) (children c))"
    by (simp add: collect_level_paragraphs_def skipped_def cong: if_cong)
  then show ?thesis by (simp add: concat_map_skip)
qed

lemma title_not_sec: "tag c = ''title'' \<Longrightarrow> \<not> is_tag c ''sec''"
  by (simp add: is_tag_def endswith_def)

lemma preface_scan_stops:
  "is_tag s ''sec'' \<Longrightarrow> preface_scan (pre @ s # rest) = preface_scan (pre @ [s])"
  by (induction pre) auto

lemma without_sections_title:
  "find_path [''title''] (without_sections s) = find_path [''title''] s"
proof -
  have "filter (\<lambda>c. tag c = ''title'') (filter (\<lambda>c. \<not> is_tag c ''sec'') (children s))
      = filter (\<lambda>c. tag c = ''title'') (children s)"
    by (induction "children s" arbitrary: s) (auto simp: title_not_sec intro: filter_cong)
  then show ?thesis by (simp add: find_path_one without_sections_def)
qed

lemma skipped_sec: "is_tag c ''sec'' \<Longrightarrow> skipped c"
  by (simp add: skipped_def)

lemma without_sections_tag [simp]: "tag (without_sections s) = tag s"
  by (simp add: without_sections_def)

lemma without_sections_collect:
  "collect_level_paragraphs (without_sections s) = collect_level_paragraphs s"
proof -
  have "filter (\<lambda>n. \<not> skipped n) (filter (\<lambda>c. \<not> is_tag c ''sec'') (children s))
      = filter (\<lambda>n. \<not> skipped n) (children s)"
    by (induction "children s" arbitrary: s) (auto simp: skipped_sec intro: filter_cong)
  then show ?thesis by (simp add: collect_filter without_sections_def)
qed

lemma strip_inner_children:
  "children (strip_inner a)
     = map (\<lambda>s. if is_tag s ''sec'' then without_sections s else s) (children a)"
  by (simp add: strip_inner_def)

lemma strip_inner_title:
  "find_path [''title''] (strip_inner a) = find_path [''title''] a"
proof -
  have "filter (\<lambda>c. tag c = ''title'')
          (map (\<lambda>s. if is_tag s ''sec'' then without_sections s else s) cs)
      = filter (\<lambda>c. tag c = ''title'') cs" for cs
    by (induction cs) (auto simp: title_not_sec)
  then show ?thesis by (simp add: find_path_one strip_inner_children)
qed

lemma strip_inner_collect:
  "collect_level_paragraphs (strip_inner a) = collect_level_paragraphs a"
proof -
  have "filter (\<lambda>n. \<not> skipped n)
          (map (\<lambda>s. if is_tag s ''sec'' then without_sections s else s) cs)
      = filter (\<lambda>n. \<not> skipped n) cs" for cs
    by (induction cs) (auto simp: skipped_def is_tag_def)
  then show ?thesis by (simp add: collect_filter strip_inner_children)
qed

lemma strip_inner_secs:
  "filter (\<lambda>c. is_tag c ''sec'') (children (strip_inner a))
     = map without_sections (filter (\<lambda>c. is_tag c ''sec'') (children a))"
proof -
  have "filter (\<lambda>c. is_tag c ''sec'')
          (map (\<lambda>s. if is_tag s ''sec'' then without_sections s else s) cs)
      = map without_sections (filter (\<lambda>c. is_tag c ''sec'') cs)" for cs
    by (induction cs) (auto simp: is_tag_def)
  then show ?thesis by (simp add: strip_inner_children)
qed

lemma abstract_key_strip_inner: "abstract_key n i (strip_inner a) = abstract_key n i a"
  by (simp add: abstract_key_def strip_inner_title)

lemma abstract_step_strip_inner:
  "abstract_step n st (i, strip_inner a) = abstract_step n st (i, a)"
  by (simp add: abstract_step_def Let_def abstract_key_strip_inner strip_inner_collect
      strip_inner_secs foldl_map without_sections_title without_sections_collect)

lemma foldl_zip_map:
  assumes "\<And>st i x. f st (i, h x) = f st (i, x)"
  shows "foldl f st (zip ns (map h xs)) = foldl f st (zip ns xs)"
proof (induction xs arbitrary: ns st)
  case Nil
  then show ?case by simp
next
  case (Cons x xs)
  then show ?case using assms by (cases ns) auto
qed

lemma zip_from_one:
  "zip [1 ..< Suc (length xs)] xs = map (\<lambda>i. (Suc i, xs ! i)) [0 ..< length xs]"
proof (rule nth_equalityI)
  show "length (zip [1 ..< Suc (length xs)] xs)
      = length (map (\<lambda>i. (Suc i, xs ! i)) [0 ..< length xs])"
    by (simp del: upt_Suc)
next
  fix i
  assume "i < length (zip [1 ..< Suc (length xs)] xs)"
  then show "zip [1 ..< Suc (length xs)] xs ! i
      = map (\<lambda>i. (Suc i, xs ! i)) [0 ..< length xs] ! i"
    by (simp del: upt_Suc)
qed

section \<open>Blocks after the first section of the body\<close>

text \<open>
  C9. A child of the body that is not named \<open>sec\<close> and that comes after a child whose tag
  ends with \<open>sec\<close> is dropped: the body walker gives the same map for the article with
  the block and for the article without it, whatever the block contains. The preface scan
  has stopped before it and the walk visits the \<open>sec\<close> children only.
\<close>

theorem trailing_block_dropped:
  assumes "find_path [''body''] article = Some body"
    and "find_path [''body''] article' = Some body'"
    and "children body = pre @ [s] @ mid @ [blk] @ post"
    and "children body' = pre @ [s] @ mid @ post"
    and "is_tag s ''sec''"
    and "tag blk \<noteq> ''sec''"
  shows "parse_body_into_map article store = parse_body_into_map article' store"
proof -
  have p: "preface_scan (children body) = preface_scan (children body')"
    using assms(3,4,5) preface_scan_stops [of s pre "mid @ [blk] @ post"]
      preface_scan_stops [of s pre "mid @ post"] by simp
  have f: "findall [''sec''] body = findall [''sec''] body'"
    using assms(3,4,6) by (simp add: findall_one)
  show ?thesis using assms(1,2) p f by (simp add: parse_body_into_map_def)
qed

theorem trailing_block_dropped_witness:
  "jats_to_section_paragraph_map fromstring
     ''<article><body><p>pre</p><sec><title>S</title><p>x</p></sec><p>lost</p><sec><p>y</p></sec></body></article>''
   = jats_to_section_paragraph_map fromstring
     ''<article><body><p>pre</p><sec><title>S</title><p>x</p></sec><sec><p>y</p></sec></body></article>'' \<and>
   jats_to_section_paragraph_map fromstring
     ''<article><body><p>pre</p><sec><title>S</title><p>x</p></sec><p>lost</p><sec><p>y</p></sec></body></article>''
   = Inr [(''Body (untitled)'', [''pre'']), (''S'', [''x'']), (''Untitled Section'', [''y''])]"
proof -
  let ?p = "Element ''p'' (Some ''pre'') None []"
  let ?s = "Element ''sec'' None None
      [Element ''title'' (Some ''S'') None [], Element ''p'' (Some ''x'') None []]"
  let ?l = "Element ''p'' (Some ''lost'') None []"
  let ?s2 = "Element ''sec'' None None [Element ''p'' (Some ''y'') None []]"
  let ?b1 = "Element ''body'' None None [?p, ?s, ?l, ?s2]"
  let ?b2 = "Element ''body'' None None [?p, ?s, ?s2]"
  let ?a1 = "Element ''article'' None None [?b1]"
  let ?a2 = "Element ''article'' None None [?b2]"
  have r1: "jats_to_section_paragraph_map fromstring
     ''<article><body><p>pre</p><sec><title>S</title><p>x</p></sec><p>lost</p><sec><p>y</p></sec></body></article>''
     = Inr (parse_body_into_map ?a1 [])" by code_simp
  have r2: "jats_to_section_paragraph_map fromstring
     ''<article><body><p>pre</p><sec><title>S</title><p>x</p></sec><sec><p>y</p></sec></body></article>''
     = Inr (parse_body_into_map ?a2 [])" by code_simp
  have v: "parse_body_into_map ?a2 []
     = [(''Body (untitled)'', [''pre'']), (''S'', [''x'']), (''Untitled Section'', [''y''])]"
    by code_simp
  have f1: "find_path [''body''] ?a1 = Some ?b1" by code_simp
  have f2: "find_path [''body''] ?a2 = Some ?b2" by code_simp
  have c1: "children ?b1 = [?p] @ [?s] @ [] @ [?l] @ [?s2]" by simp
  have c2: "children ?b2 = [?p] @ [?s] @ [] @ [?s2]" by simp
  have s: "is_tag ?s ''sec''" by code_simp
  have l: "tag ?l \<noteq> ''sec''" by simp
  have "parse_body_into_map ?a1 [] = parse_body_into_map ?a2 []"
    by (rule trailing_block_dropped [OF f1 f2 c1 c2 s l])
  then show ?thesis using r1 r2 v by simp
qed

section \<open>Sections two levels below an abstract\<close>

text \<open>
  C10. The abstract walker goes one level down: a section that is a child of a section
  child of an abstract gets no entry and its text reaches no entry. The walker gives the
  same map for the article and for the article in which all those inner sections are
  removed. (The body walker \<open>walk_sec\<close> calls itself on every section child.)
\<close>

theorem abstract_walk_one_level:
  assumes "find_path [''front'', ''article-meta''] article = Some meta"
    and "find_path [''front'', ''article-meta''] article' = Some meta'"
    and "abs_nodes meta' = map strip_inner (abs_nodes meta)"
  shows "parse_abstract_into_map article' store = parse_abstract_into_map article store"
  using assms
  by (simp add: parse_abstract_into_map_def Let_def foldl_zip_map abstract_step_strip_inner)

theorem abstract_walk_one_level_witness:
  "jats_to_section_paragraph_map fromstring
     ''<article><front><article-meta><abstract><p>a</p><sec><title>Methods</title><p>m</p><sec><title>Deep</title><p>lost</p></sec></sec></abstract></article-meta></front></article>''
   = jats_to_section_paragraph_map fromstring
     ''<article><front><article-meta><abstract><p>a</p><sec><title>Methods</title><p>m</p></sec></abstract></article-meta></front></article>'' \<and>
   jats_to_section_paragraph_map fromstring
     ''<article><front><article-meta><abstract><p>a</p><sec><title>Methods</title><p>m</p><sec><title>Deep</title><p>lost</p></sec></sec></abstract></article-meta></front></article>''
   = Inr [(''Abstract'', [''a'']), (''Methods'', [''m''])]"
proof -
  let ?d = "Element ''sec'' None None
      [Element ''title'' (Some ''Deep'') None [], Element ''p'' (Some ''lost'') None []]"
  let ?s1 = "Element ''sec'' None None
      [Element ''title'' (Some ''Methods'') None [], Element ''p'' (Some ''m'') None [], ?d]"
  let ?s2 = "Element ''sec'' None None
      [Element ''title'' (Some ''Methods'') None [], Element ''p'' (Some ''m'') None []]"
  let ?m1 = "Element ''article-meta'' None None
      [Element ''abstract'' None None [Element ''p'' (Some ''a'') None [], ?s1]]"
  let ?m2 = "Element ''article-meta'' None None
      [Element ''abstract'' None None [Element ''p'' (Some ''a'') None [], ?s2]]"
  let ?a1 = "Element ''article'' None None [Element ''front'' None None [?m1]]"
  let ?a2 = "Element ''article'' None None [Element ''front'' None None [?m2]]"
  have r1: "jats_to_section_paragraph_map fromstring
     ''<article><front><article-meta><abstract><p>a</p><sec><title>Methods</title><p>m</p><sec><title>Deep</title><p>lost</p></sec></sec></abstract></article-meta></front></article>''
     = Inr (parse_abstract_into_map ?a1 [])" by code_simp
  have r2: "jats_to_section_paragraph_map fromstring
     ''<article><front><article-meta><abstract><p>a</p><sec><title>Methods</title><p>m</p></sec></abstract></article-meta></front></article>''
     = Inr (parse_abstract_into_map ?a2 [])" by code_simp
  have v: "parse_abstract_into_map ?a2 [] = [(''Abstract'', [''a'']), (''Methods'', [''m''])]"
    by code_simp
  have f1: "find_path [''front'', ''article-meta''] ?a1 = Some ?m1" by code_simp
  have f2: "find_path [''front'', ''article-meta''] ?a2 = Some ?m2" by code_simp
  have n: "abs_nodes ?m2 = map strip_inner (abs_nodes ?m1)" by code_simp
  have "parse_abstract_into_map ?a2 [] = parse_abstract_into_map ?a1 []"
    by (rule abstract_walk_one_level [OF f1 f2 n])
  then show ?thesis using r1 r2 v by simp
qed

section \<open>Facts about the map and the section walk\<close>

lemma map_of_setdefault_extend:
  "map_of (setdefault_extend m k ps) k' =
     (if k' = k then Some (entry m k @ ps) else map_of m k')"
  by (induction m) (auto simp: entry_def)

lemma map_of_extend_if:
  "map_of (extend_if m k ps) k' =
     (if k' = k \<and> ps \<noteq> [] then Some (entry m k @ ps) else map_of m k')"
  by (simp add: extend_if_def map_of_setdefault_extend)

lemma entry_extend_if:
  "entry (extend_if m k ps) k' = (if k' = k then entry m k @ ps else entry m k')"
  by (simp add: entry_def map_of_extend_if)

lemma add_entries_Nil [simp]: "add_entries m [] = m"
  by (simp add: add_entries_def)

lemma add_entries_Cons [simp]:
  "add_entries m (e # es) = add_entries (extend_if m (fst e) (snd e)) es"
  by (simp add: add_entries_def)

lemma add_entries_append: "add_entries m (xs @ ys) = add_entries (add_entries m xs) ys"
  by (simp add: add_entries_def)

lemma map_of_add_entries:
  "map_of (add_entries m es) k =
     (if paras_for k es = [] then map_of m k else Some (entry m k @ paras_for k es))"
proof (induction es arbitrary: m)
  case Nil
  then show ?case by (simp add: paras_for_def)
next
  case (Cons e es)
  show ?case
    by (auto simp: Cons.IH paras_for_def map_of_extend_if entry_extend_if)
qed

lemma paras_for_other: "\<forall>e\<in>set es. fst e \<noteq> k \<Longrightarrow> paras_for k es = []"
  by (induction es) (auto simp: paras_for_def)

lemma count_setdefault_extend:
  "length (filter (\<lambda>e. fst e = k) (setdefault_extend m k' ps)) =
     (if k' = k then max 1 (length (filter (\<lambda>e. fst e = k) m))
      else length (filter (\<lambda>e. fst e = k) m))"
  by (induction m) auto

lemma count_add_entries:
  "length (filter (\<lambda>e. fst e = k) m) \<le> 1 \<Longrightarrow>
   length (filter (\<lambda>e. fst e = k) (add_entries m es)) \<le> 1"
proof (induction es arbitrary: m)
  case Nil
  then show ?case by simp
next
  case (Cons e es)
  have "length (filter (\<lambda>e. fst e = k) (extend_if m (fst e) (snd e))) \<le> 1"
    using Cons.prems by (simp add: extend_if_def count_setdefault_extend)
  then show ?case using Cons.IH by simp
qed

lemma count_absent: "map_of m k = None \<Longrightarrow> filter (\<lambda>e. fst e = k) m = []"
  by (induction m) (auto split: if_splits)

lemma count_present: "map_of m k = Some v \<Longrightarrow> 1 \<le> length (filter (\<lambda>e. fst e = k) m)"
  by (induction m) (auto split: if_splits)

lemma sec_entries_nested:
  "sec_entries s = (sec_key s, collect_level_paragraphs s) # nested_entries s"
  by (cases s) (simp add: nested_entries_def)

lemma walk_children_entries:
  assumes "\<And>c m. c \<in> set cs \<Longrightarrow> walk_sec c m = add_entries m (sec_entries c)"
  shows "foldl (\<lambda>st child. if is_tag child ''sec'' then walk_sec child st else st) m cs
     = add_entries m (concat (map sec_entries (filter (\<lambda>c. is_tag c ''sec'') cs)))"
  using assms
proof (induction cs arbitrary: m)
  case Nil
  then show ?case by simp
next
  case (Cons c cs)
  then show ?case by (simp add: add_entries_append)
qed

lemma walk_sec_entries: "walk_sec s m = add_entries m (sec_entries s)"
proof (induction s arbitrary: m)
  case (Element t tx ta cs)
  have "foldl (\<lambda>st child. if is_tag child ''sec'' then walk_sec child st else st) m' cs
     = add_entries m' (concat (map sec_entries (filter (\<lambda>c. is_tag c ''sec'') cs)))" for m'
    by (rule walk_children_entries) (rule Element.IH)
  then show ?case by (simp add: Let_def sec_key_def)
qed

lemma paras_for_append: "paras_for k (xs @ ys) = paras_for k xs @ paras_for k ys"
  by (simp add: paras_for_def)

lemma paras_for_Cons:
  "paras_for k (e # es) = (if fst e = k then snd e @ paras_for k es else paras_for k es)"
  by (simp add: paras_for_def)

lemma entry_add_entries: "entry (add_entries m es) k = entry m k @ paras_for k es"
  by (simp add: entry_def map_of_add_entries)

lemma exact_sec: "tag s = ''sec'' \<Longrightarrow> is_tag s ''sec''"
  by (simp add: is_tag_def endswith_def)

section \<open>Nested sections and the list of the parent\<close>




section \<open>Facts about the abstract walker and the walk of the body\<close>

lemma foldl_extend_entries:
  "foldl (\<lambda>st s. extend_if st (f s) (g s)) m xs = add_entries m (map (\<lambda>s. (f s, g s)) xs)"
  by (induction xs arbitrary: m) auto

lemma abstract_step_entries: "abstract_step n m ie = add_entries m (abstract_entries n ie)"
  by (simp add: abstract_step_def abstract_entries_def Let_def foldl_extend_entries)

lemma foldl_abstract_step_entries:
  "foldl (abstract_step n) m ies = add_entries m (concat (map (abstract_entries n) ies))"
  by (induction ies arbitrary: m) (auto simp: abstract_step_entries add_entries_append)

lemma paras_for_block:
  "(k, ps) \<in> set es \<Longrightarrow> \<exists>pre post. paras_for k es = pre @ ps @ post"
proof -
  assume "(k, ps) \<in> set es"
  then obtain xs ys where "es = xs @ (k, ps) # ys" by (auto simp: in_set_conv_decomp)
  then have "paras_for k es = paras_for k xs @ ps @ paras_for k ys"
    by (simp add: paras_for_append paras_for_Cons)
  then show ?thesis by blast
qed

lemma stored_under_key:
  assumes "(k, ps) \<in> set es"
  shows "\<exists>pre post. entry (add_entries m es) k = pre @ ps @ post"
proof -
  obtain pre post where "paras_for k es = pre @ ps @ post"
    using paras_for_block [OF assms] by blast
  then have "entry (add_entries m es) k = (entry m k @ pre) @ ps @ post"
    by (simp add: entry_add_entries)
  then show ?thesis by blast
qed

lemma foldl_walk_entries:
  "foldl (\<lambda>st top. walk_sec top st) m xs = add_entries m (concat (map sec_entries xs))"
  by (induction xs arbitrary: m) (auto simp: walk_sec_entries add_entries_append)

lemma paras_for_sections_other:
  "\<forall>s\<in>set xs. \<forall>e\<in>set (sec_entries s). fst e \<noteq> k \<Longrightarrow>
   paras_for k (concat (map sec_entries xs)) = []"
  by (rule paras_for_other) auto

section \<open>The keys of the abstracts\<close>

text \<open>
  C5. The abstract nodes of the metadata container are its \<open>abstract\<close> children followed
  by its \<open>trans-abstract\<close> children, and the walker handles the node at position \<open>i\<close>
  (from 0) with the number \<open>i + 1\<close>. When there is exactly one node and it has no title,
  its key is \<open>Abstract\<close>. When there are several, the key of a node is its flattened title
  when that is not empty, and otherwise \<open>Abstract\<close>, a space and its number. In both
  cases the key is where the node's own paragraphs are stored: the list that the returned
  map holds under the key contains them, in their order and next to each other.
\<close>

theorem abstract_keys:
  assumes "find_path [''front'', ''article-meta''] article = Some meta"
    and "nodes = abs_nodes meta"
    and "n = length nodes"
  shows "nodes = filter (\<lambda>c. tag c = ''abstract'') (children meta)
               @ filter (\<lambda>c. tag c = ''trans-abstract'') (children meta) \<and>
    parse_abstract_into_map article store
      = foldl (abstract_step n) store (map (\<lambda>i. (Suc i, nodes ! i)) [0 ..< n]) \<and>
    (n = 1 \<and> find_path [''title''] (nodes ! 0) = None \<longrightarrow>
       abstract_key n 1 (nodes ! 0) = ''Abstract'' \<and>
       (\<exists>pre post. entry (parse_abstract_into_map article store) ''Abstract''
          = pre @ collect_level_paragraphs (nodes ! 0) @ post)) \<and>
    (1 < n \<longrightarrow> (\<forall>i<n.
       abstract_key n (Suc i) (nodes ! i) =
         (if txt_el (find_path [''title''] (nodes ! i)) = []
          then ''Abstract '' @ str_of_nat (Suc i)
          else txt_el (find_path [''title''] (nodes ! i))) \<and>
       (\<exists>pre post. entry (parse_abstract_into_map article store)
            (if txt_el (find_path [''title''] (nodes ! i)) = []
             then ''Abstract '' @ str_of_nat (Suc i)
             else txt_el (find_path [''title''] (nodes ! i)))
          = pre @ collect_level_paragraphs (nodes ! i) @ post)))"
proof -
  let ?M = "parse_abstract_into_map article store"
  let ?ies = "map (\<lambda>i. (Suc i, nodes ! i)) [0 ..< n]"
  have fold: "?M = foldl (abstract_step n) store ?ies"
    using assms zip_from_one [of nodes] by (simp add: parse_abstract_into_map_def Let_def)
  have stored: "\<exists>pre post. entry ?M (abstract_key n (Suc i) (nodes ! i))
      = pre @ collect_level_paragraphs (nodes ! i) @ post" if "i < n" for i
  proof -
    have "(Suc i, nodes ! i) \<in> set ?ies" using that by auto
    then have "(abstract_key n (Suc i) (nodes ! i), collect_level_paragraphs (nodes ! i))
        \<in> set (concat (map (abstract_entries n) ?ies))"
      by (force simp: abstract_entries_def)
    then show ?thesis
      unfolding fold foldl_abstract_step_entries by (rule stored_under_key)
  qed
  have single: "abstract_key n 1 (nodes ! 0) = ''Abstract''"
    if "n = 1 \<and> find_path [''title''] (nodes ! 0) = None"
    using that by (simp add: abstract_key_def txt_el_def)
  have several: "abstract_key n (Suc i) (nodes ! i) =
       (if txt_el (find_path [''title''] (nodes ! i)) = []
        then ''Abstract '' @ str_of_nat (Suc i)
        else txt_el (find_path [''title''] (nodes ! i)))"
    if "1 < n" for i
    using that by (simp add: abstract_key_def or_else_def)
  show ?thesis
  proof (intro conjI impI allI)
    show "nodes = filter (\<lambda>c. tag c = ''abstract'') (children meta)
               @ filter (\<lambda>c. tag c = ''trans-abstract'') (children meta)"
      using assms(2) by (simp add: abs_nodes_def findall_one)
    show "?M = foldl (abstract_step n) store ?ies" by (rule fold)
    show "abstract_key n 1 (nodes ! 0) = ''Abstract''"
      if "n = 1 \<and> find_path [''title''] (nodes ! 0) = None"
      using that by (rule single)
    show "\<exists>pre post. entry ?M ''Abstract'' = pre @ collect_level_paragraphs (nodes ! 0) @ post"
      if h: "n = 1 \<and> find_path [''title''] (nodes ! 0) = None"
      using stored [of 0] single [OF h] h by simp
    show "abstract_key n (Suc i) (nodes ! i) =
       (if txt_el (find_path [''title''] (nodes ! i)) = []
        then ''Abstract '' @ str_of_nat (Suc i)
        else txt_el (find_path [''title''] (nodes ! i)))"
      if "1 < n" and "i < n" for i
      using that(1) by (rule several)
    show "\<exists>pre post. entry ?M
            (if txt_el (find_path [''title''] (nodes ! i)) = []
             then ''Abstract '' @ str_of_nat (Suc i)
             else txt_el (find_path [''title''] (nodes ! i)))
          = pre @ collect_level_paragraphs (nodes ! i) @ post"
      if "1 < n" and "i < n" for i
      using stored [OF that(2)] several [OF that(1), of i] by simp
  qed
qed

theorem abstract_keys_witness:
  "abstract_key 1 1 (Element ''abstract'' None None [Element ''p'' (Some ''Only.'') None []])
     = ''Abstract'' \<and>
   abs_nodes (Element ''article-meta'' None None
     [Element ''trans-abstract'' None None [Element ''p'' (Some ''T'') None []],
      Element ''abstract'' None None
        [Element ''title'' (Some ''Background'') None [], Element ''p'' (Some ''A'') None []],
      Element ''abstract'' None None [Element ''p'' (Some ''B'') None []]])
   = [Element ''abstract'' None None
        [Element ''title'' (Some ''Background'') None [], Element ''p'' (Some ''A'') None []],
      Element ''abstract'' None None [Element ''p'' (Some ''B'') None []],
      Element ''trans-abstract'' None None [Element ''p'' (Some ''T'') None []]] \<and>
   abstract_key 3 1 (Element ''abstract'' None None
        [Element ''title'' (Some ''Background'') None [], Element ''p'' (Some ''A'') None []])
     = ''Background'' \<and>
   abstract_key 3 2 (Element ''abstract'' None None [Element ''p'' (Some ''B'') None []])
     = ''Abstract 2'' \<and>
   abstract_key 3 3 (Element ''trans-abstract'' None None [Element ''p'' (Some ''T'') None []])
     = ''Abstract 3'' \<and>
   (\<exists>pre post. entry (parse_abstract_into_map
       (Element ''article'' None None [Element ''front'' None None
          [Element ''article-meta'' None None
             [Element ''abstract'' None None [Element ''p'' (Some ''Only.'') None []]]]])
       [(''Abstract'', [''kept''])]) ''Abstract'' = pre @ [''Only.''] @ post) \<and>
   (\<exists>pre post. entry (parse_abstract_into_map
       (Element ''article'' None None [Element ''front'' None None
          [Element ''article-meta'' None None
     [Element ''trans-abstract'' None None [Element ''p'' (Some ''T'') None []],
      Element ''abstract'' None None
        [Element ''title'' (Some ''Background'') None [], Element ''p'' (Some ''A'') None []],
      Element ''abstract'' None None [Element ''p'' (Some ''B'') None []]]]])
       []) ''Abstract 2'' = pre @ [''B''] @ post) \<and>
   parse_abstract_into_map
       (Element ''article'' None None [Element ''front'' None None
          [Element ''article-meta'' None None
     [Element ''trans-abstract'' None None [Element ''p'' (Some ''T'') None []],
      Element ''abstract'' None None
        [Element ''title'' (Some ''Background'') None [], Element ''p'' (Some ''A'') None []],
      Element ''abstract'' None None [Element ''p'' (Some ''B'') None []]]]])
       []
     = [(''Background'', [''A'']), (''Abstract 2'', [''B'']), (''Abstract 3'', [''T''])]"
proof -
  let ?o = "Element ''abstract'' None None [Element ''p'' (Some ''Only.'') None []]"
  let ?m1 = "Element ''article-meta'' None None [?o]"
  let ?a1 = "Element ''article'' None None [Element ''front'' None None [?m1]]"
  let ?t = "Element ''trans-abstract'' None None [Element ''p'' (Some ''T'') None []]"
  let ?b = "Element ''abstract'' None None
        [Element ''title'' (Some ''Background'') None [], Element ''p'' (Some ''A'') None []]"
  let ?u = "Element ''abstract'' None None [Element ''p'' (Some ''B'') None []]"
  let ?m2 = "Element ''article-meta'' None None [?t, ?b, ?u]"
  let ?a2 = "Element ''article'' None None [Element ''front'' None None [?m2]]"
  have f1: "find_path [''front'', ''article-meta''] ?a1 = Some ?m1" by code_simp
  have f2: "find_path [''front'', ''article-meta''] ?a2 = Some ?m2" by code_simp
  have n1: "abs_nodes ?m1 = [?o]" by code_simp
  have n2: "abs_nodes ?m2 = [?b, ?u, ?t]" by code_simp
  have t1: "find_path [''title''] ?o = None" by code_simp
  have tb: "txt_el (find_path [''title''] ?b) = ''Background''" by code_simp
  have tu: "txt_el (find_path [''title''] ?u) = []" by code_simp
  have tt: "txt_el (find_path [''title''] ?t) = []" by code_simp
  have s2: "str_of_nat 2 = ''2''" by code_simp
  have s3: "str_of_nat 3 = ''3''" by code_simp
  have co: "collect_level_paragraphs ?o = [''Only.'']" by code_simp
  have cu: "collect_level_paragraphs ?u = [''B'']" by code_simp
  have v: "parse_abstract_into_map ?a2 []
     = [(''Background'', [''A'']), (''Abstract 2'', [''B'']), (''Abstract 3'', [''T''])]"
    by code_simp
  note single = abstract_keys [OF f1 refl refl, of "[(''Abstract'', [''kept''])]", unfolded n1,
        THEN conjunct2, THEN conjunct2, THEN conjunct1, rule_format]
  have k1: "abstract_key 1 1 ?o = ''Abstract''"
    using single [THEN conjunct1] t1 by simp
  have e1: "\<exists>pre post. entry (parse_abstract_into_map ?a1 [(''Abstract'', [''kept''])])
      ''Abstract'' = pre @ [''Only.''] @ post"
    using single [THEN conjunct2] t1 co by simp
  note keys = abstract_keys [OF f2 refl refl, of "[]", unfolded n2,
      THEN conjunct2, THEN conjunct2, THEN conjunct2, rule_format]
  have kb: "abstract_key 3 1 ?b = ''Background''"
    using keys [of 0, THEN conjunct1] tb by (simp add: numeral_3_eq_3)
  have ku: "abstract_key 3 2 ?u = ''Abstract 2''"
    using keys [of 1, THEN conjunct1] tu s2 by (simp add: numeral_3_eq_3 numeral_2_eq_2)
  have kt: "abstract_key 3 3 ?t = ''Abstract 3''"
    using keys [of 2, THEN conjunct1] tt s3 by (simp add: numeral_3_eq_3 numeral_2_eq_2)
  have e2: "\<exists>pre post. entry (parse_abstract_into_map ?a2 []) ''Abstract 2''
      = pre @ [''B''] @ post"
    using keys [of 1, THEN conjunct2] tu s2 cu by (simp add: numeral_2_eq_2)
  show ?thesis using k1 n2 kb ku kt e1 e2 v by blast
qed

section \<open>Sibling sections with the same title\<close>

text \<open>
  C7 as stated fails. The list of a key collects what every part of the document stores
  under it, not only what the two sections store. In the document below the body has
  exactly two sections, both titled Methods, with the paragraphs A and B, and the abstract
  has the same title: the list under Methods is Z, A, B.
\<close>

theorem same_key_elsewhere_counterexample:
  "findall [''sec''] (Element ''body'' None None
      [Element ''sec'' None None
         [Element ''title'' (Some ''Methods'') None [], Element ''p'' (Some ''A'') None []],
       Element ''sec'' None None
         [Element ''title'' (Some ''Methods'') None [], Element ''p'' (Some ''B'') None []]])
     = [Element ''sec'' None None
         [Element ''title'' (Some ''Methods'') None [], Element ''p'' (Some ''A'') None []],
        Element ''sec'' None None
         [Element ''title'' (Some ''Methods'') None [], Element ''p'' (Some ''B'') None []]] \<and>
   sec_key (Element ''sec'' None None
         [Element ''title'' (Some ''Methods'') None [], Element ''p'' (Some ''A'') None []])
     = ''Methods'' \<and>
   sec_key (Element ''sec'' None None
         [Element ''title'' (Some ''Methods'') None [], Element ''p'' (Some ''B'') None []])
     = ''Methods'' \<and>
   collect_level_paragraphs (Element ''sec'' None None
         [Element ''title'' (Some ''Methods'') None [], Element ''p'' (Some ''A'') None []])
     = [''A''] \<and>
   collect_level_paragraphs (Element ''sec'' None None
         [Element ''title'' (Some ''Methods'') None [], Element ''p'' (Some ''B'') None []])
     = [''B''] \<and>
   jats_to_section_paragraph_map fromstring
     ''<article><front><article-meta><abstract><title>Methods</title><p>Z</p></abstract></article-meta></front><body><sec><title>Methods</title><p>A</p></sec><sec><title>Methods</title><p>B</p></sec></body></article>''
     = Inr [(''Methods'', [''Z'', ''A'', ''B''])]"
  by code_simp

text \<open>
  C7, amended. A body has two sections \<open>s1\<close> and \<open>s2\<close>, the first before the second,
  that derive the same key, with the paragraph lists \<open>ps1\<close> and \<open>ps2\<close> (in the claim a
  single paragraph A and a single paragraph B). Nothing else stores under that key: no
  section nested in them, no other section of the body at any depth, not the preface, and
  the map does not have the key before the body is walked. Then the returned map has
  exactly one entry for the key and its list is \<open>ps1\<close> followed by \<open>ps2\<close>.
\<close>

theorem sibling_sections_merge:
  assumes body: "find_path [''body''] article = Some body"
    and ch: "children body = pre @ [s1] @ mid @ [s2] @ post"
    and t1: "tag s1 = ''sec''" and t2: "tag s2 = ''sec''"
    and k1: "sec_key s1 = k" and k2: "sec_key s2 = k"
    and p1: "collect_level_paragraphs s1 = ps1"
    and p2: "collect_level_paragraphs s2 = ps2"
    and ne: "ps1 @ ps2 \<noteq> []"
    and nested: "\<forall>e\<in>set (nested_entries s1 @ nested_entries s2). fst e \<noteq> k"
    and others: "\<forall>s\<in>set (pre @ mid @ post). tag s = ''sec'' \<longrightarrow>
                   (\<forall>e\<in>set (sec_entries s). fst e \<noteq> k)"
    and preface: "preface_scan (children body) = [] \<or> k \<noteq> ''Body (untitled)''"
    and fresh: "map_of store k = None"
  shows "map_of (parse_body_into_map article store) k = Some (ps1 @ ps2) \<and>
         length (filter (\<lambda>e. fst e = k) (parse_body_into_map article store)) = 1"
proof -
  let ?P = "\<lambda>c. tag c = ''sec''"
  let ?pf = "(''Body (untitled)'', preface_scan (children body))"
  let ?secs = "filter ?P pre @ [s1] @ filter ?P mid @ [s2] @ filter ?P post"
  let ?es = "?pf # concat (map sec_entries ?secs)"
  have secs: "findall [''sec''] body = ?secs"
    using ch t1 t2 by (simp add: findall_one)
  have r: "parse_body_into_map article store = add_entries store ?es"
    using body by (simp add: parse_body_into_map_def Let_def secs foldl_walk_entries)
  have o: "paras_for k (concat (map sec_entries (filter ?P xs))) = []"
    if "set xs \<subseteq> set (pre @ mid @ post)" for xs
    using that others by (intro paras_for_sections_other) auto
  have n1: "paras_for k (nested_entries s1) = []" and n2: "paras_for k (nested_entries s2) = []"
    using nested by (auto intro: paras_for_other)
  have own1: "paras_for k (sec_entries s1) = ps1" and own2: "paras_for k (sec_entries s2) = ps2"
    using k1 k2 p1 p2 n1 n2 by (simp_all add: sec_entries_nested paras_for_Cons)
  have pre0: "paras_for k [?pf] = []"
    using preface by (auto simp: paras_for_def)
  have "paras_for k ?es = paras_for k [?pf]
      @ paras_for k (concat (map sec_entries (filter ?P pre)))
      @ paras_for k (sec_entries s1)
      @ paras_for k (concat (map sec_entries (filter ?P mid)))
      @ paras_for k (sec_entries s2)
      @ paras_for k (concat (map sec_entries (filter ?P post)))"
    by (simp add: paras_for_def)
  moreover have "paras_for k (concat (map sec_entries (filter ?P pre))) = []"
    by (rule o) auto
  moreover have "paras_for k (concat (map sec_entries (filter ?P mid))) = []"
    by (rule o) auto
  moreover have "paras_for k (concat (map sec_entries (filter ?P post))) = []"
    by (rule o) auto
  ultimately have pf: "paras_for k ?es = ps1 @ ps2"
    using pre0 own1 own2 by simp
  have e: "entry store k = []" using fresh by (simp add: entry_def)
  have m: "map_of (parse_body_into_map article store) k = Some (ps1 @ ps2)"
    using pf ne e unfolding r map_of_add_entries by auto
  have "length (filter (\<lambda>e. fst e = k) store) \<le> 1"
    using count_absent [OF fresh] by simp
  then have "length (filter (\<lambda>e. fst e = k) (parse_body_into_map article store)) \<le> 1"
    unfolding r by (rule count_add_entries)
  moreover have "1 \<le> length (filter (\<lambda>e. fst e = k) (parse_body_into_map article store))"
    using m by (rule count_present)
  ultimately show ?thesis using m by simp
qed

theorem sibling_sections_merge_witness:
  "jats_to_section_paragraph_map fromstring
     ''<article><body><p>pre</p><sec><title>Methods</title><p>A</p></sec><sec><title>Other</title><p>o</p></sec><sec><title>Methods</title><p>B</p></sec></body></article>''
     = Inr (parse_body_into_map (Element ''article'' None None [Element ''body'' None None
         [Element ''p'' (Some ''pre'') None [],
          Element ''sec'' None None
            [Element ''title'' (Some ''Methods'') None [], Element ''p'' (Some ''A'') None []],
          Element ''sec'' None None
            [Element ''title'' (Some ''Other'') None [], Element ''p'' (Some ''o'') None []],
          Element ''sec'' None None
            [Element ''title'' (Some ''Methods'') None [], Element ''p'' (Some ''B'') None []]]])
         []) \<and>
   map_of (parse_body_into_map (Element ''article'' None None [Element ''body'' None None
         [Element ''p'' (Some ''pre'') None [],
          Element ''sec'' None None
            [Element ''title'' (Some ''Methods'') None [], Element ''p'' (Some ''A'') None []],
          Element ''sec'' None None
            [Element ''title'' (Some ''Other'') None [], Element ''p'' (Some ''o'') None []],
          Element ''sec'' None None
            [Element ''title'' (Some ''Methods'') None [], Element ''p'' (Some ''B'') None []]]])
         []) ''Methods'' = Some [''A'', ''B''] \<and>
   length (filter (\<lambda>e. fst e = ''Methods'')
      (parse_body_into_map (Element ''article'' None None [Element ''body'' None None
         [Element ''p'' (Some ''pre'') None [],
          Element ''sec'' None None
            [Element ''title'' (Some ''Methods'') None [], Element ''p'' (Some ''A'') None []],
          Element ''sec'' None None
            [Element ''title'' (Some ''Other'') None [], Element ''p'' (Some ''o'') None []],
          Element ''sec'' None None
            [Element ''title'' (Some ''Methods'') None [], Element ''p'' (Some ''B'') None []]]])
         [])) = 1"
proof -
  let ?p = "Element ''p'' (Some ''pre'') None []"
  let ?s1 = "Element ''sec'' None None
            [Element ''title'' (Some ''Methods'') None [], Element ''p'' (Some ''A'') None []]"
  let ?o = "Element ''sec'' None None
            [Element ''title'' (Some ''Other'') None [], Element ''p'' (Some ''o'') None []]"
  let ?s2 = "Element ''sec'' None None
            [Element ''title'' (Some ''Methods'') None [], Element ''p'' (Some ''B'') None []]"
  let ?b = "Element ''body'' None None [?p, ?s1, ?o, ?s2]"
  let ?a = "Element ''article'' None None [?b]"
  have r: "jats_to_section_paragraph_map fromstring
     ''<article><body><p>pre</p><sec><title>Methods</title><p>A</p></sec><sec><title>Other</title><p>o</p></sec><sec><title>Methods</title><p>B</p></sec></body></article>''
     = Inr (parse_body_into_map ?a [])" by code_simp
  have body: "find_path [''body''] ?a = Some ?b" by code_simp
  have ch: "children ?b = [?p] @ [?s1] @ [?o] @ [?s2] @ []" by simp
  have t1: "tag ?s1 = ''sec''" and t2: "tag ?s2 = ''sec''" by simp_all
  have k1: "sec_key ?s1 = ''Methods''" by code_simp
  have k2: "sec_key ?s2 = ''Methods''" by code_simp
  have p1: "collect_level_paragraphs ?s1 = [''A'']" by code_simp
  have p2: "collect_level_paragraphs ?s2 = [''B'']" by code_simp
  have ne: "[''A''] @ [''B''] \<noteq> ([] :: string list)" by simp
  have e1: "nested_entries ?s1 = []" by code_simp
  have e2: "nested_entries ?s2 = []" by code_simp
  have nested: "\<forall>e\<in>set (nested_entries ?s1 @ nested_entries ?s2). fst e \<noteq> ''Methods''"
    unfolding e1 e2 by simp
  have eo: "sec_entries ?o = [(''Other'', [''o''])]" by code_simp
  have oo: "\<forall>e\<in>set (sec_entries ?o). fst e \<noteq> ''Methods''"
    unfolding eo by simp
  have others: "\<forall>s\<in>set ([?p] @ [?o] @ []). tag s = ''sec'' \<longrightarrow>
      (\<forall>e\<in>set (sec_entries s). fst e \<noteq> ''Methods'')"
    using oo by (simp del: sec_entries.simps)
  have preface: "preface_scan (children ?b) = [] \<or> ''Methods'' \<noteq> ''Body (untitled)''"
    by simp
  have fresh: "map_of ([] :: store) ''Methods'' = None" by simp
  show ?thesis
    using sibling_sections_merge [OF body ch t1 t2 k1 k2 p1 p2 ne nested others preface fresh] r
    by simp
qed

end
